theory Spec2Isabelle
  imports Main
begin

section \<open>Characters and strings\<close>

text \<open>
  A Python \<^verbatim>\<open>str\<close> is a sequence of Unicode code points, and the scanner reads
  it one code point at a time. A character is therefore modelled by its code point and a
  string by the list of its code points. \<open>str\<close> embeds an ASCII literal.
\<close>

type_synonym pychar = nat
type_synonym pystr = "pychar list"

definition str :: "string \<Rightarrow> pystr" where
  "str s = map of_char s"

definition in_ranges :: "(nat \<times> nat) list \<Rightarrow> nat \<Rightarrow> bool" where
  "in_ranges rs c = list_ex (\<lambda>(lo, hi). lo \<le> c \<and> c \<le> hi) rs"

text \<open>
  The built-in character classes, as inclusive code point ranges of the Unicode
  database of the interpreter (Unicode 14.0.0, CPython 3.11).
  \<open>numeric_ranges\<close> are the characters for which \<^verbatim>\<open>str.isnumeric\<close> holds
  (Numeric_Type Decimal, Digit or Numeric), \<open>space_ranges\<close> those for which
  \<^verbatim>\<open>str.isspace\<close> holds, and \<open>decimal_starts\<close> lists the code point of the digit
  zero of every run of ten decimal digits (General_Category Nd), the characters that
  \<^verbatim>\<open>int\<close> converts.
\<close>

definition numeric_ranges :: "(nat \<times> nat) list" where
  "numeric_ranges =
    [
     (48, 57), (178, 179), (185, 185), (188, 190), (1632, 1641), (1776, 1785),
     (1984, 1993), (2406, 2415), (2534, 2543), (2548, 2553), (2662, 2671), (2790, 2799),
     (2918, 2927), (2930, 2935), (3046, 3058), (3174, 3183), (3192, 3198), (3302, 3311),
     (3416, 3422), (3430, 3448), (3558, 3567), (3664, 3673), (3792, 3801), (3872, 3891),
     (4160, 4169), (4240, 4249), (4969, 4988), (5870, 5872), (6112, 6121), (6128, 6137),
     (6160, 6169), (6470, 6479), (6608, 6618), (6784, 6793), (6800, 6809), (6992, 7001),
     (7088, 7097), (7232, 7241), (7248, 7257), (8304, 8304), (8308, 8313), (8320, 8329),
     (8528, 8578), (8581, 8585), (9312, 9371), (9450, 9471), (10102, 10131), (11517, 11517),
     (12295, 12295), (12321, 12329), (12344, 12346), (12690, 12693), (12832, 12841), (12872, 12879),
     (12881, 12895), (12928, 12937), (12977, 12991), (13317, 13317), (13443, 13443), (14378, 14378),
     (15181, 15181), (19968, 19968), (19971, 19971), (19975, 19975), (19977, 19977), (20061, 20061),
     (20108, 20108), (20116, 20116), (20118, 20118), (20159, 20160), (20191, 20191), (20200, 20200),
     (20237, 20237), (20336, 20336), (20740, 20740), (20806, 20806), (20841, 20841), (20843, 20843),
     (20845, 20845), (21313, 21313), (21315, 21317), (21324, 21324), (21441, 21444), (22235, 22235),
     (22769, 22769), (22777, 22777), (24186, 24186), (24318, 24319), (24332, 24334), (24336, 24336),
     (25342, 25342), (25420, 25420), (26578, 26578), (28422, 28422), (29590, 29590), (30334, 30334),
     (32902, 32902), (33836, 33836), (36014, 36014), (36019, 36019), (36144, 36144), (38433, 38433),
     (38470, 38470), (38476, 38476), (38520, 38520), (38646, 38646), (42528, 42537), (42726, 42735),
     (43056, 43061), (43216, 43225), (43264, 43273), (43472, 43481), (43504, 43513), (43600, 43609),
     (44016, 44025), (63851, 63851), (63859, 63859), (63864, 63864), (63922, 63922), (63953, 63953),
     (63955, 63955), (63997, 63997), (65296, 65305), (65799, 65843), (65856, 65912), (65930, 65931),
     (66273, 66299), (66336, 66339), (66369, 66369), (66378, 66378), (66513, 66517), (66720, 66729),
     (67672, 67679), (67705, 67711), (67751, 67759), (67835, 67839), (67862, 67867), (68028, 68029),
     (68032, 68047), (68050, 68095), (68160, 68168), (68221, 68222), (68253, 68255), (68331, 68335),
     (68440, 68447), (68472, 68479), (68521, 68527), (68858, 68863), (68912, 68921), (69216, 69246),
     (69405, 69414), (69457, 69460), (69573, 69579), (69714, 69743), (69872, 69881), (69942, 69951),
     (70096, 70105), (70113, 70132), (70384, 70393), (70736, 70745), (70864, 70873), (71248, 71257),
     (71360, 71369), (71472, 71483), (71904, 71922), (72016, 72025), (72784, 72812), (73040, 73049),
     (73120, 73129), (73664, 73684), (74752, 74862), (92768, 92777), (92864, 92873), (93008, 93017),
     (93019, 93025), (93824, 93846), (119520, 119539), (119648, 119672), (120782, 120831), (123200, 123209),
     (123632, 123641), (125127, 125135), (125264, 125273), (126065, 126123), (126125, 126127), (126129, 126132),
     (126209, 126253), (126255, 126269), (127232, 127244), (130032, 130041), (131073, 131073), (131172, 131172),
     (131298, 131298), (131361, 131361), (133418, 133418), (133507, 133507), (133516, 133516), (133532, 133532),
     (133866, 133866), (133885, 133885), (133913, 133913), (140176, 140176), (141720, 141720), (146203, 146203),
     (156269, 156269), (194704, 194704)
    ]"

definition space_ranges :: "(nat \<times> nat) list" where
  "space_ranges =
    [
     (9, 13), (28, 32), (133, 133), (160, 160), (5760, 5760), (8192, 8202),
     (8232, 8233), (8239, 8239), (8287, 8287), (12288, 12288)
    ]"

definition decimal_starts :: "nat list" where
  "decimal_starts =
    [
     48, 1632, 1776, 1984, 2406, 2534, 2662, 2790, 2918, 3046,
     3174, 3302, 3430, 3558, 3664, 3792, 3872, 4160, 4240, 6112,
     6160, 6470, 6608, 6784, 6800, 6992, 7088, 7232, 7248, 42528,
     43216, 43264, 43472, 43504, 43600, 44016, 65296, 66720, 68912, 69734,
     69872, 69942, 70096, 70384, 70736, 70864, 71248, 71360, 71472, 71904,
     72016, 72784, 73040, 73120, 92768, 92864, 93008, 120782, 120792, 120802,
     120812, 120822, 123200, 123632, 125264, 130032
    ]"

definition isnumeric :: "pychar \<Rightarrow> bool" where
  "isnumeric c = in_ranges numeric_ranges c"

definition isspace :: "pychar \<Rightarrow> bool" where
  "isspace c = in_ranges space_ranges c"

section \<open>Tokens and errors\<close>

datatype TokenType = PLUS | MINUS | MUL | NUM

text \<open>The value of an enumeration member: \<^verbatim>\<open>NUM = "NUMBER"\<close>.\<close>

fun TokenType_value :: "TokenType \<Rightarrow> pystr" where
  "TokenType_value PLUS = str ''PLUS''"
| "TokenType_value MINUS = str ''MINUS''"
| "TokenType_value MUL = str ''MUL''"
| "TokenType_value NUM = str ''NUMBER''"

record token =
  type :: TokenType
  lexeme :: pystr

text \<open>
  The exceptions of the program and the built-in ones its code can raise.
  \<open>UnexpectedInputError\<close> carries the offending input, \<open>ParseError\<close> its message,
  \<open>EvaluationError\<close> the unknown operator. \<open>ValueError\<close> is the plain built-in
  exception raised by \<^verbatim>\<open>int\<close>, \<open>IndexError\<close> the one raised by indexing a
  sequence out of range, \<open>UnboundLocalError\<close> the one raised by reading a local
  variable that no branch assigned.
\<close>

datatype error =
    UnexpectedInputError pystr
  | ParseError string
  | EvaluationError TokenType
  | ValueError
  | IndexError
  | UnboundLocalError

section \<open>Scanner\<close>

definition scan_operator :: "pychar \<Rightarrow> error + token" where
  "scan_operator ch =
     (if ch = of_char CHR ''+'' then Inr \<lparr>type = PLUS, lexeme = [ch]\<rparr>
      else if ch = of_char CHR ''-'' then Inr \<lparr>type = MINUS, lexeme = [ch]\<rparr>
      else if ch = of_char CHR ''*'' then Inr \<lparr>type = MUL, lexeme = [ch]\<rparr>
      else Inl UnboundLocalError)"

text \<open>The slice \<^verbatim>\<open>source[start:current]\<close> for indices that are not negative.\<close>

definition slice :: "'a list \<Rightarrow> nat \<Rightarrow> nat \<Rightarrow> 'a list" where
  "slice xs i j = take (j - i) (drop i xs)"

function scan_number_loop :: "pystr \<Rightarrow> nat \<Rightarrow> nat" where
  "scan_number_loop source current =
     (if current < length source \<and> isnumeric (source ! current)
      then scan_number_loop source (current + 1)
      else current)"
  by pat_completeness auto
termination
  by (relation "measure (\<lambda>(source, current). length source - current)") auto

declare scan_number_loop.simps [simp del]

definition scan_number :: "nat \<Rightarrow> pystr \<Rightarrow> nat \<times> token" where
  "scan_number start source =
     (let current = scan_number_loop source start;
          num = slice source start current
      in (current, \<lparr>type = NUM, lexeme = num\<rparr>))"

lemma scan_number_loop_ge: "current \<le> scan_number_loop source current"
proof (induction source current rule: scan_number_loop.induct)
  case (1 source current)
  then show ?case
    by (subst scan_number_loop.simps) (auto simp: Suc_le_eq)
qed

lemma scan_number_loop_gt:
  "current < length source \<Longrightarrow> isnumeric (source ! current) \<Longrightarrow>
   current < scan_number_loop source current"
  using scan_number_loop_ge [of "current + 1" source]
  by (subst scan_number_loop.simps) simp

lemma scan_number_loop_le:
  "current \<le> length source \<Longrightarrow> scan_number_loop source current \<le> length source"
proof (induction source current rule: scan_number_loop.induct)
  case (1 source current)
  then show ?case
    by (subst scan_number_loop.simps) auto
qed

lemma scan_number_loop_measure:
  "current < length source \<Longrightarrow> isnumeric (source ! current) \<Longrightarrow>
   length source - scan_number_loop source current < length source - current"
  using scan_number_loop_gt [of current source] by arith

function scan_loop :: "pystr \<Rightarrow> nat \<Rightarrow> token list \<Rightarrow> error + token list" where
  "scan_loop source current tokens =
     (if current < length source then
        (let ch = source ! current in
         if ch = of_char CHR ''+'' \<or> ch = of_char CHR ''-'' \<or> ch = of_char CHR ''*'' then
           (case scan_operator ch of
              Inl e \<Rightarrow> Inl e
            | Inr token \<Rightarrow> scan_loop source (current + 1) (tokens @ [token]))
         else if isnumeric ch then
           (case scan_number current source of
              (current', token) \<Rightarrow> scan_loop source current' (tokens @ [token]))
         else if isspace ch then scan_loop source (current + 1) tokens
         else Inl (UnexpectedInputError [ch]))
      else Inr tokens)"
  by pat_completeness auto
termination
  by (relation "measure (\<lambda>(source, current, tokens). length source - current)")
    (auto simp: scan_number_def Let_def scan_number_loop_measure)

declare scan_loop.simps [simp del]

definition scan :: "pystr \<Rightarrow> error + token list" where
  "scan source = scan_loop source 0 []"

text \<open>The operator characters, and the token \<open>scan_operator\<close> makes of one.\<close>

definition is_operator :: "pychar \<Rightarrow> bool" where
  "is_operator ch = (ch = of_char CHR ''+'' \<or> ch = of_char CHR ''-'' \<or> ch = of_char CHR ''*'')"

definition operator_token :: "pychar \<Rightarrow> token" where
  "operator_token ch =
     \<lparr>type = (if ch = of_char CHR ''+'' then PLUS else if ch = of_char CHR ''-'' then MINUS else MUL),
      lexeme = [ch]\<rparr>"

section \<open>Abstract syntax tree\<close>

datatype node = BinOp node TokenType node | Literal token

text \<open>
  \<open>Formatter\<close>: \<open>accept\<close> dispatches on the node, \<open>visit_BinOp\<close> renders
  \<^verbatim>\<open>(operator.value left right)\<close> and \<open>visit_Literal\<close> the lexeme of the token.
\<close>

definition Formatter_visit_Literal :: "token \<Rightarrow> pystr" where
  "Formatter_visit_Literal tok = lexeme tok"

fun Formatter_accept :: "node \<Rightarrow> pystr" where
  "Formatter_accept (BinOp left operator right) =
     str ''('' @ TokenType_value operator @ str '' '' @ Formatter_accept left @ str '' ''
       @ Formatter_accept right @ str '')''"
| "Formatter_accept (Literal tok) = Formatter_visit_Literal tok"

section \<open>Parser\<close>

text \<open>
  Indexing a sequence with a Python integer: an index below zero counts from the end,
  and an index out of range raises \<open>IndexError\<close>.
\<close>

definition getitem :: "'a list \<Rightarrow> int \<Rightarrow> error + 'a" where
  "getitem xs i =
     (if 0 \<le> i \<and> i < int (length xs) then Inr (xs ! nat i)
      else if - int (length xs) \<le> i \<and> i < 0 then Inr (xs ! nat (int (length xs) + i))
      else Inl IndexError)"

text \<open>
  The parser's state is the token sequence, which it never changes, and the cursor
  \<open>current\<close>. Every operation takes both and returns the new cursor with its result.
\<close>

definition is_last :: "token list \<Rightarrow> int \<Rightarrow> bool" where
  "is_last tokens current = (current = int (length tokens) - 1)"

definition peek :: "token list \<Rightarrow> int \<Rightarrow> error + token" where
  "peek tokens current = getitem tokens current"

definition previous :: "token list \<Rightarrow> int \<Rightarrow> error + token" where
  "previous tokens current = getitem tokens (current - 1)"

definition advance :: "token list \<Rightarrow> int \<Rightarrow> int" where
  "advance tokens current = (if \<not> is_last tokens current then current + 1 else current)"

definition expected :: "token list \<Rightarrow> int \<Rightarrow> TokenType \<Rightarrow> error + bool" where
  "expected tokens current token_type =
     (if is_last tokens current then Inr False
      else case peek tokens current of
             Inl e \<Rightarrow> Inl e
           | Inr tok \<Rightarrow> Inr (type tok = token_type))"

fun match :: "token list \<Rightarrow> int \<Rightarrow> TokenType list \<Rightarrow> error + (bool \<times> int)" where
  "match tokens current [] = Inr (False, current)"
| "match tokens current (token_type # token_types) =
     (case expected tokens current token_type of
        Inl e \<Rightarrow> Inl e
      | Inr True \<Rightarrow> Inr (True, advance tokens current)
      | Inr False \<Rightarrow> match tokens current token_types)"

definition parse_literal :: "token list \<Rightarrow> int \<Rightarrow> error + (node \<times> int)" where
  "parse_literal tokens current =
     (case getitem tokens current of
        Inl e \<Rightarrow> Inl e
      | Inr tok \<Rightarrow>
          if type tok = NUM then
            (case peek tokens current of
               Inl e \<Rightarrow> Inl e
             | Inr current_token \<Rightarrow> Inr (Literal current_token, advance tokens current))
          else Inl (ParseError ''Wrong syntax''))"

lemma expected_True:
  "expected tokens current token_type = Inr True \<Longrightarrow>
   current < int (length tokens) - 1 \<and> advance tokens current = current + 1"
  by (auto simp: expected_def peek_def getitem_def advance_def is_last_def
      split: if_splits sum.splits)

lemma match_True:
  "match tokens current token_types = Inr (True, current1) \<Longrightarrow>
   current < int (length tokens) - 1 \<and> current1 = current + 1"
proof (induction token_types)
  case Nil
  then show ?case by simp
next
  case (Cons token_type token_types)
  then show ?case
    using expected_True [of tokens current token_type]
    by (auto split: sum.splits bool.splits)
qed

lemma match_False:
  "match tokens current token_types = Inr (False, current1) \<Longrightarrow> current1 = current"
  by (induction token_types) (auto split: sum.splits bool.splits)

lemma parse_literal_cursor:
  "parse_literal tokens current = Inr (lit, current1) \<Longrightarrow>
   current \<le> current1 \<and> current1 \<le> current + 1"
  by (auto simp: parse_literal_def advance_def split: sum.splits if_splits)

function factor_loop :: "token list \<Rightarrow> int \<Rightarrow> node \<Rightarrow> error + (node \<times> int)" where
  "factor_loop tokens current factor =
     (case match tokens current [MUL] of
        Inl e \<Rightarrow> Inl e
      | Inr (False, current1) \<Rightarrow> Inr (factor, current1)
      | Inr (True, current1) \<Rightarrow>
          (case previous tokens current1 of
             Inl e \<Rightarrow> Inl e
           | Inr operator \<Rightarrow>
               (case parse_literal tokens current1 of
                  Inl e \<Rightarrow> Inl e
                | Inr (right, current2) \<Rightarrow>
                    factor_loop tokens current2 (BinOp factor (type operator) right))))"
  by pat_completeness auto
termination
  by (relation "measure (\<lambda>(tokens, current, factor). nat (int (length tokens) - current))")
    (auto simp del: match.simps dest!: match_True parse_literal_cursor)

declare factor_loop.simps [simp del]

definition parse_factor :: "token list \<Rightarrow> int \<Rightarrow> error + (node \<times> int)" where
  "parse_factor tokens current =
     (case parse_literal tokens current of
        Inl e \<Rightarrow> Inl e
      | Inr (factor, current1) \<Rightarrow> factor_loop tokens current1 factor)"

lemma factor_loop_cursor:
  "factor_loop tokens current factor = Inr (result, current1) \<Longrightarrow> current \<le> current1"
proof (induction tokens current factor rule: factor_loop.induct)
  case (1 tokens current factor)
  show ?case
  proof (cases "match tokens current [MUL]")
    case (Inl e)
    with "1.prems" show ?thesis
      by (subst (asm) factor_loop.simps) simp
  next
    case (Inr mr)
    obtain b c1 where mr: "mr = (b, c1)"
      by (cases mr)
    show ?thesis
    proof (cases b)
      case False
      with Inr mr have "c1 = current"
        using match_False [of tokens current "[MUL]" c1] by simp
      with False Inr mr "1.prems" show ?thesis
        by (subst (asm) factor_loop.simps) simp
    next
      case True
      with Inr mr have c1: "c1 = current + 1"
        using match_True [of tokens current "[MUL]" c1] by simp
      from "1.prems" Inr mr True obtain operator right c2
        where prev: "previous tokens c1 = Inr operator"
          and lit: "parse_literal tokens c1 = Inr (right, c2)"
          and rec: "factor_loop tokens c2 (BinOp factor (type operator) right)
                      = Inr (result, current1)"
        by (subst (asm) factor_loop.simps) (auto split: sum.splits)
      have "c2 \<le> current1"
        using "1.IH" [OF Inr mr [symmetric] _ prev lit refl rec] True by simp
      moreover have "c1 \<le> c2"
        using parse_literal_cursor [OF lit] by simp
      ultimately show ?thesis
        using c1 by simp
    qed
  qed
qed

lemma parse_factor_cursor:
  "parse_factor tokens current = Inr (result, current1) \<Longrightarrow> current \<le> current1"
  by (auto simp: parse_factor_def split: sum.splits
      dest!: parse_literal_cursor factor_loop_cursor)

function term_loop :: "token list \<Rightarrow> int \<Rightarrow> node \<Rightarrow> error + (node \<times> int)" where
  "term_loop tokens current term =
     (case match tokens current [PLUS, MINUS] of
        Inl e \<Rightarrow> Inl e
      | Inr (False, current1) \<Rightarrow> Inr (term, current1)
      | Inr (True, current1) \<Rightarrow>
          (case previous tokens current1 of
             Inl e \<Rightarrow> Inl e
           | Inr operator \<Rightarrow>
               (case parse_factor tokens current1 of
                  Inl e \<Rightarrow> Inl e
                | Inr (right, current2) \<Rightarrow>
                    term_loop tokens current2 (BinOp term (type operator) right))))"
  by pat_completeness auto
termination
  by (relation "measure (\<lambda>(tokens, current, term). nat (int (length tokens) - current))")
    (auto simp del: match.simps dest!: match_True parse_factor_cursor)

declare term_loop.simps [simp del]

definition parse_term :: "token list \<Rightarrow> int \<Rightarrow> error + (node \<times> int)" where
  "parse_term tokens current =
     (case parse_factor tokens current of
        Inl e \<Rightarrow> Inl e
      | Inr (term, current1) \<Rightarrow> term_loop tokens current1 term)"

definition parse :: "token list \<Rightarrow> error + node" where
  "parse tokens =
     (case parse_term tokens 0 of
        Inl e \<Rightarrow> Inl e
      | Inr (term, current) \<Rightarrow> Inr term)"

section \<open>Evaluator\<close>

text \<open>
  The built-in \<^verbatim>\<open>int(s)\<close> on a string, in base ten. Leading and trailing whitespace
  is skipped, one sign may follow, then the digits, which single underscores may
  separate; anything else raises \<open>ValueError\<close>. A digit is any Unicode decimal digit,
  with the value it has in its run of ten. Whitespace is the ASCII whitespace of C for
  code points below 127 and \<^verbatim>\<open>str.isspace\<close> above. Python's integers are unbounded;
  the interpreter's optional limit on the number of digits of a conversion is taken as
  switched off.
\<close>

definition decimal_digit :: "pychar \<Rightarrow> nat option" where
  "decimal_digit c =
     (case find (\<lambda>zero. zero \<le> c \<and> c \<le> zero + 9) decimal_starts of
        None \<Rightarrow> None
      | Some zero \<Rightarrow> Some (c - zero))"

definition int_space :: "pychar \<Rightarrow> bool" where
  "int_space c = (if c < 127 then (9 \<le> c \<and> c \<le> 13) \<or> c = 32 else isspace c)"

definition int_body_char :: "pychar \<Rightarrow> bool" where
  "int_body_char c = (decimal_digit c \<noteq> None \<or> c = of_char CHR ''_'')"

fun double_underscore :: "pystr \<Rightarrow> bool" where
  "double_underscore (a # b # cs) =
     ((a = of_char CHR ''_'' \<and> b = of_char CHR ''_'') \<or> double_underscore (b # cs))"
| "double_underscore cs = False"

definition digits_value :: "pystr \<Rightarrow> nat" where
  "digits_value body =
     foldl (\<lambda>acc c. 10 * acc + the (decimal_digit c)) 0
       (filter (\<lambda>c. c \<noteq> of_char CHR ''_'') body)"

definition py_int :: "pystr \<Rightarrow> error + int" where
  "py_int s =
     (let s1 = dropWhile int_space s;
          negative = (s1 \<noteq> [] \<and> hd s1 = of_char CHR ''-'');
          s2 = (if s1 \<noteq> [] \<and> (hd s1 = of_char CHR ''+'' \<or> hd s1 = of_char CHR ''-'')
                then tl s1 else s1);
          body = takeWhile int_body_char s2;
          rest = dropWhile int_body_char s2
      in if body = [] \<or> hd body = of_char CHR ''_'' \<or> last body = of_char CHR ''_''
            \<or> double_underscore body \<or> dropWhile int_space rest \<noteq> []
         then Inl ValueError
         else Inr (if negative then - int (digits_value body) else int (digits_value body)))"

definition Evaluator_visit_Literal :: "token \<Rightarrow> error + int" where
  "Evaluator_visit_Literal tok = py_int (lexeme tok)"

text \<open>
  \<open>accept\<close> dispatches on the node; the \<open>BinOp\<close> equation is \<open>visit_BinOp\<close>: the
  left operand is evaluated first, then the right one, then the operator is matched.
\<close>

fun Evaluator_accept :: "node \<Rightarrow> error + int" where
  "Evaluator_accept (BinOp left operator right) =
     (case Evaluator_accept left of
        Inl e \<Rightarrow> Inl e
      | Inr l \<Rightarrow>
          (case Evaluator_accept right of
             Inl e \<Rightarrow> Inl e
           | Inr r \<Rightarrow>
               (case operator of
                  PLUS \<Rightarrow> Inr (l + r)
                | MINUS \<Rightarrow> Inr (l - r)
                | MUL \<Rightarrow> Inr (l * r)
                | NUM \<Rightarrow> Inl (EvaluationError operator))))"
| "Evaluator_accept (Literal tok) = Evaluator_visit_Literal tok"

definition evaluate :: "node \<Rightarrow> error + int" where
  "evaluate ast = Evaluator_accept ast"

section \<open>The pipeline\<close>

definition eval :: "pystr \<Rightarrow> error + int" where
  "eval source =
     (case scan source of
        Inl e \<Rightarrow> Inl e
      | Inr tokens \<Rightarrow>
          (case parse tokens of
             Inl e \<Rightarrow> Inl e
           | Inr ast \<Rightarrow> evaluate ast))"

section \<open>Properties of the character classes\<close>

lemma op_codes:
  "of_char CHR ''+'' = (43 :: nat)" "of_char CHR ''-'' = (45 :: nat)"
  "of_char CHR ''*'' = (42 :: nat)" "of_char CHR ''_'' = (95 :: nat)"
  by simp_all

lemma in_ranges_Cons:
  "in_ranges ((lo, hi) # rs) c = ((lo \<le> c \<and> c \<le> hi) \<or> in_ranges rs c)"
  by (simp add: in_ranges_def)

lemma in_ranges_outside:
  "list_all (\<lambda>(lo, hi). hi < a \<or> b < lo) rs \<Longrightarrow> a \<le> c \<Longrightarrow> c \<le> b \<Longrightarrow> \<not> in_ranges rs c"
  by (induction rs) (auto simp: in_ranges_def)

lemma operators_not_numeric:
  "\<not> isnumeric 43" "\<not> isnumeric 45" "\<not> isnumeric 42"
  by (simp_all add: isnumeric_def in_ranges_def numeric_ranges_def)

lemma operators_not_space:
  "\<not> isspace 43" "\<not> isspace 45" "\<not> isspace 42"
  by (simp_all add: isspace_def in_ranges_def space_ranges_def)

lemma ascii_digit_numeric: "48 \<le> c \<Longrightarrow> c \<le> 57 \<Longrightarrow> isnumeric c"
  by (simp add: isnumeric_def numeric_ranges_def in_ranges_Cons)

lemma space_not_numeric: "isspace c \<Longrightarrow> \<not> isnumeric c"
proof -
  assume "isspace c"
  then consider "9 \<le> c \<and> c \<le> 13" | "28 \<le> c \<and> c \<le> 32" | "c = 133" | "c = 160"
    | "c = 5760" | "8192 \<le> c \<and> c \<le> 8202" | "8232 \<le> c \<and> c \<le> 8233" | "c = 8239"
    | "c = 8287" | "c = 12288"
    by (auto simp: isspace_def in_ranges_def space_ranges_def)
  then show ?thesis
  proof cases
    case 1
    have "list_all (\<lambda>(lo, hi). hi < 9 \<or> 13 < lo) numeric_ranges"
      by (simp add: numeric_ranges_def)
    then show ?thesis
      unfolding isnumeric_def using 1 by (intro in_ranges_outside [where a = 9 and b = 13]) auto
  next
    case 2
    have "list_all (\<lambda>(lo, hi). hi < 28 \<or> 32 < lo) numeric_ranges"
      by (simp add: numeric_ranges_def)
    then show ?thesis
      unfolding isnumeric_def using 2 by (intro in_ranges_outside [where a = 28 and b = 32]) auto
  next
    case 3
    then show ?thesis by (simp add: isnumeric_def in_ranges_def numeric_ranges_def)
  next
    case 4
    then show ?thesis by (simp add: isnumeric_def in_ranges_def numeric_ranges_def)
  next
    case 5
    then show ?thesis by (simp add: isnumeric_def in_ranges_def numeric_ranges_def)
  next
    case 6
    have "list_all (\<lambda>(lo, hi). hi < 8192 \<or> 8202 < lo) numeric_ranges"
      by (simp add: numeric_ranges_def)
    then show ?thesis
      unfolding isnumeric_def using 6 by (intro in_ranges_outside [where a = 8192 and b = 8202]) auto
  next
    case 7
    have "list_all (\<lambda>(lo, hi). hi < 8232 \<or> 8233 < lo) numeric_ranges"
      by (simp add: numeric_ranges_def)
    then show ?thesis
      unfolding isnumeric_def using 7 by (intro in_ranges_outside [where a = 8232 and b = 8233]) auto
  next
    case 8
    then show ?thesis by (simp add: isnumeric_def in_ranges_def numeric_ranges_def)
  next
    case 9
    then show ?thesis by (simp add: isnumeric_def in_ranges_def numeric_ranges_def)
  next
    case 10
    then show ?thesis by (simp add: isnumeric_def in_ranges_def numeric_ranges_def)
  qed
qed


section \<open>Properties of the scanner\<close>

lemma scan_number_loop_takeWhile:
  "scan_number_loop source current = current + length (takeWhile isnumeric (drop current source))"
proof (induction source current rule: scan_number_loop.induct)
  case (1 source current)
  show ?case
  proof (cases "current < length source \<and> isnumeric (source ! current)")
    case True
    then have "drop current source = source ! current # drop (current + 1) source"
      by (simp add: Cons_nth_drop_Suc)
    with True "1.IH" show ?thesis
      by (subst scan_number_loop.simps) simp
  next
    case False
    then have "takeWhile isnumeric (drop current source) = []"
      by (cases "current < length source") (simp_all add: Cons_nth_drop_Suc [symmetric])
    with False show ?thesis
      by (subst scan_number_loop.simps) auto
  qed
qed

lemma scan_number_append:
  "scan_number (length pre + current) (pre @ source)
     = (length pre + fst (scan_number current source), snd (scan_number current source))"
  by (simp add: scan_number_def Let_def scan_number_loop_takeWhile slice_def)

lemma scan_loop_append:
  "scan_loop (pre @ source) (length pre + current) tokens = scan_loop source current tokens"
proof (induction source current tokens rule: scan_loop.induct)
  case (1 source current tokens)
  show ?case
  proof (cases "current < length source")
    case False
    then show ?thesis
      by (simp add: scan_loop.simps [of "pre @ source"] scan_loop.simps [of source])
  next
    case True
    define ch where "ch = source ! current"
    have nth: "(pre @ source) ! (length pre + current) = ch"
      by (simp add: ch_def nth_append)
    consider (op) "ch = of_char CHR ''+'' \<or> ch = of_char CHR ''-'' \<or> ch = of_char CHR ''*''"
      | (num) "\<not> (ch = of_char CHR ''+'' \<or> ch = of_char CHR ''-'' \<or> ch = of_char CHR ''*'')"
          "isnumeric ch"
      | (other) "\<not> (ch = of_char CHR ''+'' \<or> ch = of_char CHR ''-'' \<or> ch = of_char CHR ''*'')"
          "\<not> isnumeric ch"
      by blast
    then show ?thesis
    proof cases
      case op
      show ?thesis
      proof (cases "scan_operator ch")
        case (Inl e)
        with True op nth show ?thesis
          by (simp add: scan_loop.simps [of "pre @ source"] scan_loop.simps [of source current]
              ch_def [symmetric] Let_def)
      next
        case (Inr tok)
        have "scan_loop (pre @ source) (length pre + (current + 1)) (tokens @ [tok])
                = scan_loop source (current + 1) (tokens @ [tok])"
          using "1.IH"(1) [OF True ch_def op Inr] .
        with True op nth Inr show ?thesis
          by (simp add: scan_loop.simps [of "pre @ source"] scan_loop.simps [of source current]
              ch_def [symmetric] Let_def add.assoc)
      qed
    next
      case num
      obtain c1 tok where sn: "scan_number current source = (c1, tok)"
        by (cases "scan_number current source")
      have "scan_loop (pre @ source) (length pre + c1) (tokens @ [tok])
              = scan_loop source c1 (tokens @ [tok])"
        using "1.IH"(2) [OF True ch_def num(1) num(2) sn [symmetric]] .
      with True num nth sn show ?thesis
        by (simp add: scan_loop.simps [of "pre @ source"] scan_loop.simps [of source current]
            ch_def [symmetric] Let_def scan_number_append)
    next
      case other
      show ?thesis
      proof (cases "isspace ch")
        case sp: True
        have "scan_loop (pre @ source) (length pre + (current + 1)) tokens
                = scan_loop source (current + 1) tokens"
          using "1.IH"(3) [OF True ch_def other(1) other(2) sp] .
        with True other nth sp show ?thesis
          by (simp add: scan_loop.simps [of "pre @ source"] scan_loop.simps [of source current]
              ch_def [symmetric] Let_def add.assoc)
      next
        case False
        with True other nth show ?thesis
          by (simp add: scan_loop.simps [of "pre @ source"] scan_loop.simps [of source current]
              ch_def [symmetric] Let_def)
      qed
    qed
  qed
qed


lemma scan_operator_token: "is_operator ch \<Longrightarrow> scan_operator ch = Inr (operator_token ch)"
  by (auto simp: is_operator_def scan_operator_def operator_token_def)

lemma numeric_not_operator: "isnumeric ch \<Longrightarrow> \<not> is_operator ch"
  using operators_not_numeric by (auto simp: is_operator_def)

lemma space_not_operator: "isspace ch \<Longrightarrow> \<not> is_operator ch"
  using operators_not_space by (auto simp: is_operator_def)

lemma scan_loop_end:
  "\<not> current < length source \<Longrightarrow> scan_loop source current tokens = Inr tokens"
  by (simp add: scan_loop.simps)

lemma scan_loop_operator:
  "current < length source \<Longrightarrow> is_operator (source ! current) \<Longrightarrow>
   scan_loop source current tokens
     = scan_loop source (current + 1) (tokens @ [operator_token (source ! current)])"
  by (subst scan_loop.simps)
    (auto simp: Let_def is_operator_def scan_operator_def operator_token_def)

lemma scan_loop_number:
  "current < length source \<Longrightarrow> \<not> is_operator (source ! current) \<Longrightarrow>
   isnumeric (source ! current) \<Longrightarrow>
   scan_loop source current tokens
     = scan_loop source (scan_number_loop source current)
         (tokens @ [\<lparr>type = NUM, lexeme = slice source current (scan_number_loop source current)\<rparr>])"
  by (subst scan_loop.simps) (simp add: is_operator_def scan_number_def Let_def)

lemma scan_loop_space:
  "current < length source \<Longrightarrow> \<not> is_operator (source ! current) \<Longrightarrow>
   \<not> isnumeric (source ! current) \<Longrightarrow> isspace (source ! current) \<Longrightarrow>
   scan_loop source current tokens = scan_loop source (current + 1) tokens"
  by (subst scan_loop.simps) (simp add: is_operator_def Let_def)

lemma scan_loop_unexpected:
  "current < length source \<Longrightarrow> \<not> is_operator (source ! current) \<Longrightarrow>
   \<not> isnumeric (source ! current) \<Longrightarrow> \<not> isspace (source ! current) \<Longrightarrow>
   scan_loop source current tokens = Inl (UnexpectedInputError [source ! current])"
  by (subst scan_loop.simps) (simp add: is_operator_def Let_def)

lemma scan_loop_acc:
  "scan_loop source current (acc @ tokens)
     = map_sum id ((@) acc) (scan_loop source current tokens)"
proof (induction "length source - current" arbitrary: current tokens rule: less_induct)
  case less
  show ?case
  proof (cases "current < length source")
    case False
    then show ?thesis by (simp add: scan_loop_end)
  next
    case True
    consider (op) "is_operator (source ! current)"
      | (num) "\<not> is_operator (source ! current)" "isnumeric (source ! current)"
      | (space) "\<not> is_operator (source ! current)" "\<not> isnumeric (source ! current)"
          "isspace (source ! current)"
      | (bad) "\<not> is_operator (source ! current)" "\<not> isnumeric (source ! current)"
          "\<not> isspace (source ! current)"
      by blast
    then show ?thesis
    proof cases
      case op
      have "length source - (current + 1) < length source - current"
        using True by simp
      from less [OF this] True op show ?thesis
        by (simp add: scan_loop_operator)
    next
      case num
      have "length source - scan_number_loop source current < length source - current"
        using True num by (simp add: scan_number_loop_measure)
      from less [OF this] True num show ?thesis
        by (simp add: scan_loop_number)
    next
      case space
      have "length source - (current + 1) < length source - current"
        using True by simp
      from less [OF this] True space show ?thesis
        by (simp add: scan_loop_space)
    next
      case bad
      with True show ?thesis
        by (simp add: scan_loop_unexpected)
    qed
  qed
qed

lemma map_sum_append_single: "map_sum id ((@) [x]) r = map_sum id ((#) x) r"
  by (cases r) simp_all

lemma map_sum_append_Nil: "map_sum id ((@) []) r = r"
  by (cases r) simp_all

lemma scan_Nil: "scan [] = Inr []"
  by (simp add: scan_def scan_loop_end)

lemma scan_loop_tail:
  "scan_loop (ch # source) 1 tokens = map_sum id ((@) tokens) (scan source)"
  using scan_loop_append [of "[ch]" source 0 tokens] scan_loop_acc [of source 0 tokens "[]"]
  by (simp add: scan_def)

lemma scan_operator_Cons:
  "is_operator ch \<Longrightarrow> scan (ch # source) = map_sum id ((#) (operator_token ch)) (scan source)"
  using scan_loop_operator [of 0 "ch # source" "[]"] scan_loop_tail [of ch source]
  by (simp add: scan_def map_sum_append_single)

lemma scan_space_Cons:
  "\<not> is_operator ch \<Longrightarrow> \<not> isnumeric ch \<Longrightarrow> isspace ch \<Longrightarrow> scan (ch # source) = scan source"
  using scan_loop_space [of 0 "ch # source" "[]"] scan_loop_tail [of ch source "[]"]
  by (simp add: scan_def map_sum_append_Nil)

lemma scan_unexpected_Cons:
  "\<not> is_operator ch \<Longrightarrow> \<not> isnumeric ch \<Longrightarrow> \<not> isspace ch \<Longrightarrow>
   scan (ch # source) = Inl (UnexpectedInputError [ch])"
  using scan_loop_unexpected [of 0 "ch # source" "[]"]
  by (simp add: scan_def)

lemma scan_number_run:
  assumes "digits \<noteq> []" and "\<forall>ch \<in> set digits. isnumeric ch"
    and "source = [] \<or> \<not> isnumeric (hd source)"
  shows "scan (digits @ source)
           = map_sum id ((#) \<lparr>type = NUM, lexeme = digits\<rparr>) (scan source)"
proof -
  have tw: "takeWhile isnumeric (digits @ source) = digits"
    using assms(2,3) by (cases source) (simp_all add: takeWhile_append2 takeWhile_eq_all_conv)
  have stop: "scan_number_loop (digits @ source) 0 = length digits"
    by (simp add: scan_number_loop_takeWhile tw)
  have first: "(digits @ source) ! 0 = hd digits" "hd digits \<in> set digits"
    using assms(1) by (simp_all add: hd_conv_nth nth_append)
  have "scan (digits @ source)
          = scan_loop (digits @ source) (length digits + 0) ([] @ [\<lparr>type = NUM, lexeme = digits\<rparr>])"
    using scan_loop_number [of 0 "digits @ source" "[]"] assms(1,2) first
    by (simp add: scan_def stop slice_def numeric_not_operator)
  also have "\<dots> = map_sum id ((#) \<lparr>type = NUM, lexeme = digits\<rparr>) (scan source)"
    using scan_loop_acc [of source 0 "[\<lparr>type = NUM, lexeme = digits\<rparr>]" "[]"]
    by (simp only: scan_loop_append append_Nil) (simp add: scan_def map_sum_append_single)
  finally show ?thesis .
qed


lemma scan_induct [case_names Nil operator space unexpected number]:
  assumes "P []"
    and "\<And>ch s. is_operator ch \<Longrightarrow> P s \<Longrightarrow> P (ch # s)"
    and "\<And>ch s. isspace ch \<Longrightarrow> P s \<Longrightarrow> P (ch # s)"
    and "\<And>ch s. \<not> is_operator ch \<Longrightarrow> \<not> isnumeric ch \<Longrightarrow> \<not> isspace ch \<Longrightarrow> P (ch # s)"
    and "\<And>digits s. digits \<noteq> [] \<Longrightarrow> \<forall>ch \<in> set digits. isnumeric ch \<Longrightarrow>
           s = [] \<or> \<not> isnumeric (hd s) \<Longrightarrow> P s \<Longrightarrow> P (digits @ s)"
  shows "P source"
proof (induction source rule: length_induct)
  case (1 source)
  show ?case
  proof (cases source)
    case Nil
    with assms(1) show ?thesis by simp
  next
    case (Cons ch s)
    have shorter: "P s"
      using 1 Cons by simp
    show ?thesis
    proof (cases "isnumeric ch")
      case False
      with Cons shorter assms(2,3,4) show ?thesis
        by (cases "is_operator ch"; cases "isspace ch") auto
    next
      case True
      define digits where "digits = takeWhile isnumeric source"
      define s' where "s' = dropWhile isnumeric source"
      have split: "source = digits @ s'"
        by (simp add: digits_def s'_def)
      have "digits \<noteq> []"
        using True Cons by (simp add: digits_def)
      moreover have "\<forall>ch \<in> set digits. isnumeric ch"
        by (auto simp: digits_def dest: set_takeWhileD)
      moreover have "s' = [] \<or> \<not> isnumeric (hd s')"
        using hd_dropWhile [of isnumeric source] by (auto simp: s'_def)
      moreover have "length s' < length source"
        using \<open>digits \<noteq> []\<close> split by (metis length_append length_greater_0_conv less_add_same_cancel2)
      then have "P s'"
        using 1 by simp
      ultimately show ?thesis
        using assms(5) split by simp
    qed
  qed
qed

lemma scan_append:
  assumes "a = [] \<or> b = [] \<or> \<not> isnumeric (last a) \<or> \<not> isnumeric (hd b)"
  shows "scan (a @ b)
           = (case scan a of Inl e \<Rightarrow> Inl e | Inr ts \<Rightarrow> map_sum id ((@) ts) (scan b))"
  using assms
proof (induction a rule: scan_induct)
  case Nil
  then show ?case by (simp add: scan_Nil map_sum_append_Nil)
next
  case (operator ch s)
  then have "s = [] \<or> b = [] \<or> \<not> isnumeric (last s) \<or> \<not> isnumeric (hd b)"
    using numeric_not_operator by (cases s) auto
  with operator show ?case
    by (cases "scan s"; cases "scan b") (simp_all add: scan_operator_Cons)
next
  case (space ch s)
  then have "s = [] \<or> b = [] \<or> \<not> isnumeric (last s) \<or> \<not> isnumeric (hd b)"
    using space_not_numeric by (cases s) auto
  with space show ?case
    by (simp add: scan_space_Cons space_not_numeric space_not_operator)
next
  case (unexpected ch s)
  then show ?case by (simp add: scan_unexpected_Cons)
next
  case (number digits s)
  show ?case
  proof (cases "s = []")
    case True
    with number have "b = [] \<or> \<not> isnumeric (hd b)"
      by (auto simp: last_in_set)
    with number True show ?thesis
      using scan_number_run [of digits b] scan_number_run [of digits "[]"]
      by (cases "scan b") (simp_all add: scan_Nil)
  next
    case False
    with number have "s @ b = [] \<or> \<not> isnumeric (hd (s @ b))" 
      and "s = [] \<or> b = [] \<or> \<not> isnumeric (last s) \<or> \<not> isnumeric (hd b)"
      by auto
    with number show ?thesis
      using scan_number_run [of digits "s @ b"] scan_number_run [of digits s]
      by (cases "scan s"; cases "scan b") simp_all
  qed
qed

lemma scan_lexemes:
  "scan source = Inr tokens \<Longrightarrow>
   concat (map lexeme tokens) = filter (\<lambda>ch. \<not> isspace ch) source"
proof (induction source arbitrary: tokens rule: scan_induct)
  case Nil
  then show ?case by (simp add: scan_Nil)
next
  case (operator ch s)
  then show ?case
    using space_not_operator [of ch]
    by (cases "scan s") (auto simp: scan_operator_Cons operator_token_def)
next
  case (space ch s)
  then show ?case
    by (simp add: scan_space_Cons space_not_numeric space_not_operator)
next
  case (unexpected ch s)
  then show ?case by (simp add: scan_unexpected_Cons)
next
  case (number digits s)
  then have "filter (\<lambda>ch. \<not> isspace ch) digits = digits"
    using space_not_numeric by (auto simp: filter_id_conv)
  with number show ?case
    using scan_number_run [of digits s]
    by (cases "scan s") auto
qed

section \<open>Properties of the parser\<close>

text \<open>
  The cursor after \<open>k\<close> tokens have been consumed: \<open>advance\<close> never moves it past
  the last token.
\<close>

definition cursor_after :: "token list \<Rightarrow> nat \<Rightarrow> int" where
  "cursor_after tokens k = min (int k) (int (length tokens) - 1)"

text \<open>
  Token sequences of the grammar. A product is a literal followed by pairs of an
  operator and a literal, a sum of products is a product followed by pairs of an
  operator and a product; \<open>product_tree\<close> and \<open>sum_tree\<close> are the trees that group
  them from the left, the products below the sums.
\<close>

type_synonym product = "token \<times> (token \<times> token) list"
type_synonym sum_of_products = "product \<times> (token \<times> product) list"

definition product_tail_tokens :: "(token \<times> token) list \<Rightarrow> token list" where
  "product_tail_tokens mns = concat (map (\<lambda>(m, n). [m, n]) mns)"

fun product_tokens :: "product \<Rightarrow> token list" where
  "product_tokens (n, mns) = n # product_tail_tokens mns"

definition sum_tail_tokens :: "(token \<times> product) list \<Rightarrow> token list" where
  "sum_tail_tokens ops = concat (map (\<lambda>(operator, p). operator # product_tokens p) ops)"

fun sum_tokens :: "sum_of_products \<Rightarrow> token list" where
  "sum_tokens (p, ops) = product_tokens p @ sum_tail_tokens ops"

fun product_tree :: "product \<Rightarrow> node" where
  "product_tree (n, mns) = foldl (\<lambda>left (m, n). BinOp left (type m) (Literal n)) (Literal n) mns"

fun sum_tree :: "sum_of_products \<Rightarrow> node" where
  "sum_tree (p, ops) =
     foldl (\<lambda>left (operator, p). BinOp left (type operator) (product_tree p)) (product_tree p) ops"

definition product_tail_ok :: "(token \<times> token) list \<Rightarrow> bool" where
  "product_tail_ok mns = list_all (\<lambda>(m, n). type m = MUL \<and> type n = NUM) mns"

fun product_ok :: "product \<Rightarrow> bool" where
  "product_ok (n, mns) = (type n = NUM \<and> product_tail_ok mns)"

definition sum_tail_ok :: "(token \<times> product) list \<Rightarrow> bool" where
  "sum_tail_ok ops =
     list_all (\<lambda>(operator, p). (type operator = PLUS \<or> type operator = MINUS) \<and> product_ok p) ops"

fun sum_ok :: "sum_of_products \<Rightarrow> bool" where
  "sum_ok (p, ops) = (product_ok p \<and> sum_tail_ok ops)"

lemma getitem_nth: "0 \<le> i \<Longrightarrow> i < int (length xs) \<Longrightarrow> getitem xs i = Inr (xs ! nat i)"
  by (simp add: getitem_def)

lemma match_at_last: "is_last tokens current \<Longrightarrow> match tokens current token_types = Inr (False, current)"
  by (induction token_types) (simp_all add: expected_def)

lemma match_hit:
  "0 \<le> current \<Longrightarrow> current < int (length tokens) - 1 \<Longrightarrow>
   type (tokens ! nat current) \<in> set token_types \<Longrightarrow>
   match tokens current token_types = Inr (True, current + 1)"
  by (induction token_types)
    (auto simp: expected_def peek_def getitem_def is_last_def advance_def split: bool.splits)

lemma match_miss:
  "0 \<le> current \<Longrightarrow> current < int (length tokens) \<Longrightarrow>
   type (tokens ! nat current) \<notin> set token_types \<Longrightarrow>
   match tokens current token_types = Inr (False, current)"
  by (induction token_types)
    (auto simp: expected_def peek_def getitem_def is_last_def advance_def split: bool.splits)

lemma parse_literal_NUM:
  "0 \<le> current \<Longrightarrow> current < int (length tokens) \<Longrightarrow>
   type (tokens ! nat current) = NUM \<Longrightarrow>
   parse_literal tokens current = Inr (Literal (tokens ! nat current), advance tokens current)"
  by (simp add: parse_literal_def peek_def getitem_def)

lemma parse_literal_other:
  "0 \<le> current \<Longrightarrow> current < int (length tokens) \<Longrightarrow>
   type (tokens ! nat current) \<noteq> NUM \<Longrightarrow>
   parse_literal tokens current = Inl (ParseError ''Wrong syntax'')"
  by (simp add: parse_literal_def peek_def getitem_def)

lemma factor_loop_stop:
  "match tokens current [MUL] = Inr (False, current) \<Longrightarrow>
   factor_loop tokens current factor = Inr (factor, current)"
  by (subst factor_loop.simps) simp

lemma factor_loop_step:
  "match tokens current [MUL] = Inr (True, current1) \<Longrightarrow>
   previous tokens current1 = Inr operator \<Longrightarrow>
   parse_literal tokens current1 = Inr (right, current2) \<Longrightarrow>
   factor_loop tokens current factor
     = factor_loop tokens current2 (BinOp factor (type operator) right)"
  by (subst factor_loop.simps) simp

lemma factor_loop_fail:
  "match tokens current [MUL] = Inr (True, current1) \<Longrightarrow>
   previous tokens current1 = Inr operator \<Longrightarrow>
   parse_literal tokens current1 = Inl e \<Longrightarrow>
   factor_loop tokens current factor = Inl e"
  by (subst factor_loop.simps) simp

lemma term_loop_stop:
  "match tokens current [PLUS, MINUS] = Inr (False, current) \<Longrightarrow>
   term_loop tokens current term = Inr (term, current)"
  by (subst term_loop.simps) simp

lemma term_loop_step:
  "match tokens current [PLUS, MINUS] = Inr (True, current1) \<Longrightarrow>
   previous tokens current1 = Inr operator \<Longrightarrow>
   parse_factor tokens current1 = Inr (right, current2) \<Longrightarrow>
   term_loop tokens current term
     = term_loop tokens current2 (BinOp term (type operator) right)"
  by (subst term_loop.simps) simp

lemma term_loop_fail:
  "match tokens current [PLUS, MINUS] = Inr (True, current1) \<Longrightarrow>
   previous tokens current1 = Inr operator \<Longrightarrow>
   parse_factor tokens current1 = Inl e \<Longrightarrow>
   term_loop tokens current term = Inl e"
  by (subst term_loop.simps) simp

lemma advance_cursor_after:
  "k < length tokens \<Longrightarrow> advance tokens (int k) = cursor_after tokens (k + 1)"
  by (auto simp: advance_def is_last_def cursor_after_def)

lemma factor_loop_chain:
  assumes "tokens = pre @ product_tail_tokens mns @ rest" and "pre \<noteq> []"
    and "product_tail_ok mns" and "length rest \<le> 1 \<or> type (hd rest) \<noteq> MUL"
  shows "factor_loop tokens (cursor_after tokens (length pre)) factor
           = Inr (foldl (\<lambda>left (m, n). BinOp left (type m) (Literal n)) factor mns,
                  cursor_after tokens (length pre + 2 * length mns))"
  using assms
proof (induction mns arbitrary: pre factor)
  case Nil
  then have tokens: "tokens = pre @ rest"
    by (simp add: product_tail_tokens_def)
  show ?case
  proof (cases "length rest \<le> 1")
    case True
    with tokens \<open>pre \<noteq> []\<close> have "is_last tokens (cursor_after tokens (length pre))"
      by (cases rest) (auto simp: is_last_def cursor_after_def)
    then show ?thesis
      by (simp add: factor_loop_stop [OF match_at_last])
  next
    case False
    with Nil have "type (hd rest) \<noteq> MUL" and "rest \<noteq> []"
      by auto
    with False tokens have "cursor_after tokens (length pre) = int (length pre)"
      and "type (tokens ! length pre) \<notin> set [MUL]"
      by (auto simp: cursor_after_def nth_append hd_conv_nth)
    with tokens \<open>rest \<noteq> []\<close> show ?thesis
      using factor_loop_stop [OF match_miss [of "int (length pre)" tokens "[MUL]"]]
      by simp
  qed
next
  case (Cons mn mns)
  obtain m n where mn: "mn = (m, n)"
    by (cases mn)
  with Cons.prems have tokens: "tokens = pre @ m # n # product_tail_tokens mns @ rest"
    and types: "type m = MUL" "type n = NUM" and ok: "product_tail_ok mns"
    by (simp_all add: product_tail_tokens_def product_tail_ok_def)
  let ?c = "int (length pre)"
  have here: "cursor_after tokens (length pre) = ?c"
    by (simp add: tokens cursor_after_def)
  have "match tokens ?c [MUL] = Inr (True, ?c + 1)"
    using types by (intro match_hit) (simp_all add: tokens)
  moreover have "previous tokens (?c + 1) = Inr m"
    by (simp add: previous_def getitem_nth tokens)
  moreover have "parse_literal tokens (?c + 1)
      = Inr (Literal n, cursor_after tokens (length (pre @ [m, n])))"
    using parse_literal_NUM [of "int (length pre + 1)" tokens]
      advance_cursor_after [of "length pre + 1" tokens] types
    by (simp add: tokens nth_append nat_add_distrib add.commute)
  ultimately have "factor_loop tokens ?c factor
      = factor_loop tokens (cursor_after tokens (length (pre @ [m, n])))
          (BinOp factor (type m) (Literal n))"
    by (rule factor_loop_step)
  also have "\<dots> = Inr (foldl (\<lambda>left (m, n). BinOp left (type m) (Literal n))
                        (BinOp factor (type m) (Literal n)) mns,
                      cursor_after tokens (length (pre @ [m, n]) + 2 * length mns))"
    using Cons.prems(4) ok by (intro Cons.IH) (simp_all add: tokens)
  finally show ?case
    by (simp add: here mn)
qed


lemma length_product_tail_tokens: "length (product_tail_tokens mns) = 2 * length mns"
  by (induction mns) (auto simp: product_tail_tokens_def)

lemma parse_factor_product:
  assumes "tokens = pre @ product_tokens p @ rest" and "product_ok p"
    and "length rest \<le> 1 \<or> type (hd rest) \<noteq> MUL"
  shows "parse_factor tokens (int (length pre))
           = Inr (product_tree p, cursor_after tokens (length pre + length (product_tokens p)))"
proof -
  obtain n mns where p: "p = (n, mns)"
    by (cases p)
  with assms have tokens: "tokens = (pre @ [n]) @ product_tail_tokens mns @ rest"
    and ok: "type n = NUM" "product_tail_ok mns"
    by simp_all
  have "parse_literal tokens (int (length pre))
      = Inr (Literal n, cursor_after tokens (length (pre @ [n])))"
    using parse_literal_NUM [of "int (length pre)" tokens]
      advance_cursor_after [of "length pre" tokens] ok(1)
    by (simp add: tokens nth_append)
  moreover have "factor_loop tokens (cursor_after tokens (length (pre @ [n]))) (Literal n)
      = Inr (foldl (\<lambda>left (m, n). BinOp left (type m) (Literal n)) (Literal n) mns,
             cursor_after tokens (length (pre @ [n]) + 2 * length mns))"
    by (rule factor_loop_chain [OF tokens _ ok(2) assms(3)]) simp
  ultimately show ?thesis
    by (simp add: parse_factor_def p length_product_tail_tokens)
qed

lemma term_loop_chain:
  assumes "tokens = pre @ sum_tail_tokens ops @ rest" and "pre \<noteq> []"
    and "sum_tail_ok ops" and "length rest \<le> 1 \<or> type (hd rest) = NUM"
  shows "term_loop tokens (cursor_after tokens (length pre)) acc
           = Inr (foldl (\<lambda>left (operator, p). BinOp left (type operator) (product_tree p)) acc ops,
                  cursor_after tokens (length pre + length (sum_tail_tokens ops)))"
  using assms
proof (induction ops arbitrary: pre acc)
  case Nil
  then have tokens: "tokens = pre @ rest"
    by (simp add: sum_tail_tokens_def)
  show ?case
  proof (cases "length rest \<le> 1")
    case True
    with tokens \<open>pre \<noteq> []\<close> have "is_last tokens (cursor_after tokens (length pre))"
      by (cases rest) (auto simp: is_last_def cursor_after_def)
    then show ?thesis
      by (simp add: term_loop_stop [OF match_at_last] sum_tail_tokens_def)
  next
    case False
    with Nil have "type (hd rest) = NUM" and "rest \<noteq> []"
      by auto
    with False tokens have "cursor_after tokens (length pre) = int (length pre)"
      and "type (tokens ! length pre) \<notin> set [PLUS, MINUS]"
      by (auto simp: cursor_after_def nth_append hd_conv_nth)
    with tokens \<open>rest \<noteq> []\<close> show ?thesis
      using term_loop_stop [OF match_miss [of "int (length pre)" tokens "[PLUS, MINUS]"]]
      by (simp add: sum_tail_tokens_def)
  qed
next
  case (Cons op_p ops)
  obtain operator p where op_p: "op_p = (operator, p)"
    by (cases op_p)
  obtain n mns where p: "p = (n, mns)"
    by (cases p)
  from Cons.prems op_p
  have tokens: "tokens = pre @ operator # product_tokens p @ sum_tail_tokens ops @ rest"
    and types: "type operator = PLUS \<or> type operator = MINUS"
    and ok: "product_ok p" "sum_tail_ok ops"
    by (simp_all add: sum_tail_tokens_def sum_tail_ok_def)
  let ?c = "int (length pre)"
  have here: "cursor_after tokens (length pre) = ?c"
    by (simp add: tokens cursor_after_def p)
  have "match tokens ?c [PLUS, MINUS] = Inr (True, ?c + 1)"
    using types by (intro match_hit) (auto simp: tokens p)
  moreover have "previous tokens (?c + 1) = Inr operator"
    by (simp add: previous_def getitem_nth tokens)
  moreover have "parse_factor tokens (?c + 1)
      = Inr (product_tree p,
             cursor_after tokens (length (pre @ operator # product_tokens p)))"
  proof -
    have stop: "length (sum_tail_tokens ops @ rest) \<le> 1
        \<or> type (hd (sum_tail_tokens ops @ rest)) \<noteq> MUL"
    proof (cases ops)
      case Nil
      with Cons.prems(4) show ?thesis
        by (auto simp: sum_tail_tokens_def)
    next
      case (Cons op_p' ops')
      with ok(2) show ?thesis
        by (cases op_p') (auto simp: sum_tail_tokens_def sum_tail_ok_def)
    qed
    have "tokens = (pre @ [operator]) @ product_tokens p @ (sum_tail_tokens ops @ rest)"
      by (simp add: tokens)
    from parse_factor_product [OF this ok(1) stop] show ?thesis
      by (simp add: add.commute)
  qed
  ultimately have "term_loop tokens ?c acc
      = term_loop tokens (cursor_after tokens (length (pre @ operator # product_tokens p)))
          (BinOp acc (type operator) (product_tree p))"
    by (rule term_loop_step)
  also have "\<dots> = Inr (foldl (\<lambda>left (operator, p). BinOp left (type operator) (product_tree p))
                        (BinOp acc (type operator) (product_tree p)) ops,
                      cursor_after tokens (length (pre @ operator # product_tokens p)
                        + length (sum_tail_tokens ops)))"
    using Cons.prems(4) ok(2) by (intro Cons.IH) (simp_all add: tokens)
  finally show ?case
    by (simp add: here op_p sum_tail_tokens_def add.assoc)
qed

lemma parse_sum_tokens:
  assumes "sum_ok e" and "length rest \<le> 1 \<or> type (hd rest) = NUM"
  shows "parse (sum_tokens e @ rest) = Inr (sum_tree e)"
proof -
  obtain p ops where e: "e = (p, ops)"
    by (cases e)
  obtain n mns where p: "p = (n, mns)"
    by (cases p)
  define tokens where "tokens = sum_tokens e @ rest"
  from assms(1) e have ok: "product_ok p" "sum_tail_ok ops"
    by simp_all
  have stop: "length (sum_tail_tokens ops @ rest) \<le> 1
      \<or> type (hd (sum_tail_tokens ops @ rest)) \<noteq> MUL"
  proof (cases ops)
    case Nil
    with assms(2) show ?thesis
      by (auto simp: sum_tail_tokens_def)
  next
    case (Cons op_p' ops')
    with ok(2) show ?thesis
      by (cases op_p') (auto simp: sum_tail_tokens_def sum_tail_ok_def)
  qed
  have "tokens = [] @ product_tokens p @ (sum_tail_tokens ops @ rest)"
    by (simp add: tokens_def e)
  from parse_factor_product [OF this ok(1) stop]
  have first: "parse_factor tokens 0
      = Inr (product_tree p, cursor_after tokens (length (product_tokens p)))"
    by simp
  have "tokens = product_tokens p @ sum_tail_tokens ops @ rest"
    by (simp add: tokens_def e)
  from term_loop_chain [OF this _ ok(2) assms(2), of "product_tree p"]
  have "term_loop tokens (cursor_after tokens (length (product_tokens p))) (product_tree p)
      = Inr (sum_tree e,
             cursor_after tokens (length (product_tokens p) + length (sum_tail_tokens ops)))"
    by (simp add: e p)
  with first show ?thesis
    by (simp add: parse_def parse_term_def tokens_def [symmetric])
qed

text \<open>
  A token sequence is \<open>dangling\<close> when it starts with an operator whose operand is
  missing, at once or after further pairs of a literal and an operator.
\<close>

fun dangling :: "token list \<Rightarrow> bool" where
  "dangling (operator # tok # rest) = (type operator \<noteq> NUM \<and> (type tok \<noteq> NUM \<or> dangling rest))"
| "dangling toks = False"

lemma dangling_drop:
  assumes "0 \<le> c" and "dangling (drop (nat c) tokens)"
  obtains rest where "drop (nat c) tokens = tokens ! nat c # tokens ! nat (c + 1) # rest"
    and "c + 1 < int (length tokens)" and "drop (nat (c + 2)) tokens = rest"
    and "type (tokens ! nat c) \<noteq> NUM"
    and "type (tokens ! nat (c + 1)) \<noteq> NUM \<or> dangling rest"
proof -
  from assms(2) obtain operator tok rest where d: "drop (nat c) tokens = operator # tok # rest"
    by (cases "drop (nat c) tokens" rule: dangling.cases) auto
  then have len: "nat c + 1 < length tokens"
    by (metis Suc_eq_plus1 drop_eq_Nil2 drop_Suc tl_drop list.sel(3) list.distinct(1) not_le)
  have "tokens ! nat c = operator"
    using d len by (metis Cons_nth_drop_Suc Suc_eq_plus1 Suc_lessD list.inject)
  moreover have d1: "drop (nat c + 1) tokens = tok # rest"
    using d by (metis Suc_eq_plus1 drop_Suc tl_drop list.sel(3))
  then have "tokens ! (nat c + 1) = tok"
    using len by (metis Cons_nth_drop_Suc list.inject)
  moreover have "drop (nat c + 2) tokens = rest"
    using d1 by (metis Suc_eq_plus1 add_Suc_right drop_Suc tl_drop list.sel(3) one_add_one)
  ultimately show ?thesis
    using that [of rest] d len assms by (simp add: nat_add_distrib)
qed


lemma dangling_in_range: "dangling (drop k tokens) \<Longrightarrow> k < length tokens"
  by (cases "k < length tokens") simp_all

lemma factor_loop_dangling:
  assumes "0 \<le> c" and "dangling (drop (nat c) tokens)"
  shows "factor_loop tokens c factor = Inl (ParseError ''Wrong syntax'')
         \<or> (\<exists>factor' c'. factor_loop tokens c factor = Inr (factor', c') \<and> c \<le> c'
               \<and> dangling (drop (nat c') tokens) \<and> type (tokens ! nat c') \<noteq> MUL)"
  using assms
proof (induction "length tokens - nat c" arbitrary: c factor rule: less_induct)
  case less
  from less.prems obtain rest where len: "c + 1 < int (length tokens)"
    and rest: "drop (nat (c + 2)) tokens = rest"
    and operator: "type (tokens ! nat c) \<noteq> NUM"
    and operand: "type (tokens ! nat (c + 1)) \<noteq> NUM \<or> dangling rest"
    by (rule dangling_drop)
  show ?case
  proof (cases "type (tokens ! nat c) = MUL")
    case False
    then have "match tokens c [MUL] = Inr (False, c)"
      using less.prems(1) len by (intro match_miss) simp_all
    then have "factor_loop tokens c factor = Inr (factor, c)"
      by (rule factor_loop_stop)
    with False less.prems show ?thesis
      by simp
  next
    case True
    then have hit: "match tokens c [MUL] = Inr (True, c + 1)"
      using less.prems(1) len by (intro match_hit) simp_all
    have prev: "previous tokens (c + 1) = Inr (tokens ! nat c)"
      using less.prems(1) len by (simp add: previous_def getitem_nth)
    show ?thesis
    proof (cases "type (tokens ! nat (c + 1)) = NUM")
      case False
      then have "parse_literal tokens (c + 1) = Inl (ParseError ''Wrong syntax'')"
        using less.prems(1) len by (intro parse_literal_other) simp_all
      with hit prev have "factor_loop tokens c factor = Inl (ParseError ''Wrong syntax'')"
        by (rule factor_loop_fail)
      then show ?thesis ..
    next
      case num: True
      with operand rest have more: "dangling (drop (nat (c + 2)) tokens)"
        by simp
      then have "nat (c + 2) < length tokens"
        by (rule dangling_in_range)
      then have "advance tokens (c + 1) = c + 2"
        using less.prems(1) by (auto simp: advance_def is_last_def)
      with num have "parse_literal tokens (c + 1) = Inr (Literal (tokens ! nat (c + 1)), c + 2)"
        using parse_literal_NUM [of "c + 1" tokens] less.prems(1) len by simp
      with hit prev have step: "factor_loop tokens c factor
          = factor_loop tokens (c + 2)
              (BinOp factor (type (tokens ! nat c)) (Literal (tokens ! nat (c + 1))))"
        by (rule factor_loop_step)
      have "length tokens - nat (c + 2) < length tokens - nat c"
        using less.prems(1) len by linarith
      from less.hyps [OF this _ more,
          of "BinOp factor (type (tokens ! nat c)) (Literal (tokens ! nat (c + 1)))"]
        less.prems(1) step
      show ?thesis
        by fastforce
    qed
  qed
qed

lemma term_loop_dangling:
  assumes "0 \<le> c" and "dangling (drop (nat c) tokens)" and "type (tokens ! nat c) \<noteq> MUL"
  shows "term_loop tokens c acc = Inl (ParseError ''Wrong syntax'')"
  using assms
proof (induction "length tokens - nat c" arbitrary: c acc rule: less_induct)
  case less
  from less.prems(1,2) obtain rest where len: "c + 1 < int (length tokens)"
    and rest: "drop (nat (c + 2)) tokens = rest"
    and operator: "type (tokens ! nat c) \<noteq> NUM"
    and operand: "type (tokens ! nat (c + 1)) \<noteq> NUM \<or> dangling rest"
    by (rule dangling_drop)
  from operator less.prems(3) have "type (tokens ! nat c) \<in> set [PLUS, MINUS]"
    by (cases "type (tokens ! nat c)") simp_all
  then have hit: "match tokens c [PLUS, MINUS] = Inr (True, c + 1)"
    using less.prems(1) len by (intro match_hit) simp_all
  have prev: "previous tokens (c + 1) = Inr (tokens ! nat c)"
    using less.prems(1) len by (simp add: previous_def getitem_nth)
  show ?case
  proof (cases "type (tokens ! nat (c + 1)) = NUM")
    case False
    then have "parse_literal tokens (c + 1) = Inl (ParseError ''Wrong syntax'')"
      using less.prems(1) len by (intro parse_literal_other) simp_all
    then have "parse_factor tokens (c + 1) = Inl (ParseError ''Wrong syntax'')"
      by (simp add: parse_factor_def)
    with hit prev show ?thesis
      by (rule term_loop_fail)
  next
    case num: True
    with operand rest have more: "dangling (drop (nat (c + 2)) tokens)"
      by simp
    then have "nat (c + 2) < length tokens"
      by (rule dangling_in_range)
    then have "advance tokens (c + 1) = c + 2"
      using less.prems(1) by (auto simp: advance_def is_last_def)
    with num have "parse_literal tokens (c + 1) = Inr (Literal (tokens ! nat (c + 1)), c + 2)"
      using parse_literal_NUM [of "c + 1" tokens] less.prems(1) len by simp
    then have factor: "parse_factor tokens (c + 1)
        = factor_loop tokens (c + 2) (Literal (tokens ! nat (c + 1)))"
      by (simp add: parse_factor_def)
    from factor_loop_dangling [OF _ more, of "Literal (tokens ! nat (c + 1))"] less.prems(1)
    consider "factor_loop tokens (c + 2) (Literal (tokens ! nat (c + 1)))
                = Inl (ParseError ''Wrong syntax'')"
      | right c' where "factor_loop tokens (c + 2) (Literal (tokens ! nat (c + 1)))
                = Inr (right, c')" "c + 2 \<le> c'" "dangling (drop (nat c') tokens)"
          "type (tokens ! nat c') \<noteq> MUL"
      by fastforce
    then show ?thesis
    proof cases
      case 1
      with factor hit prev show ?thesis
        by (simp add: term_loop_fail)
    next
      case 2
      have "nat c' < length tokens"
        using 2(3) by (rule dangling_in_range)
      then have "length tokens - nat c' < length tokens - nat c"
        using less.prems(1) 2(2) by linarith
      from less.hyps [OF this _ 2(3,4)] less.prems(1) 2(2)
      have "term_loop tokens c' (BinOp acc (type (tokens ! nat c)) right)
          = Inl (ParseError ''Wrong syntax'')"
        by simp
      moreover have "term_loop tokens c acc
          = term_loop tokens c' (BinOp acc (type (tokens ! nat c)) right)"
        using hit prev factor 2(1) by (intro term_loop_step) simp_all
      ultimately show ?thesis
        by simp
    qed
  qed
qed

definition pairs_tokens :: "(token \<times> token) list \<Rightarrow> token list" where
  "pairs_tokens pairs = concat (map (\<lambda>(n, operator). [n, operator]) pairs)"

lemma dangling_pairs:
  assumes "list_all (\<lambda>(n, operator). type n = NUM \<and> type operator \<noteq> NUM) pairs"
    and "pairs \<noteq> []" and "type tok \<noteq> NUM"
  shows "dangling (tl (pairs_tokens pairs @ tok # rest))"
  using assms
proof (induction pairs)
  case Nil
  then show ?case by simp
next
  case (Cons pair pairs)
  obtain n operator where pair: "pair = (n, operator)"
    by (cases pair)
  show ?case
  proof (cases pairs)
    case Nil
    with Cons.prems pair show ?thesis
      by (simp add: pairs_tokens_def)
  next
    case (Cons pair' pairs')
    obtain n' operator' where pair': "pair' = (n', operator')"
      by (cases pair')
    from Cons Cons.prems Cons.IH pair pair' show ?thesis
      by (simp add: pairs_tokens_def)
  qed
qed

lemma parse_dangling:
  assumes "list_all (\<lambda>(n, operator). type n = NUM \<and> type operator \<noteq> NUM) pairs"
    and "type tok \<noteq> NUM"
  shows "parse (pairs_tokens pairs @ tok # rest) = Inl (ParseError ''Wrong syntax'')"
proof (cases pairs)
  case Nil
  then have "parse_literal (pairs_tokens pairs @ tok # rest) 0 = Inl (ParseError ''Wrong syntax'')"
    using assms(2) by (intro parse_literal_other) (simp_all add: pairs_tokens_def)
  then show ?thesis
    by (simp add: parse_def parse_term_def parse_factor_def)
next
  case (Cons pair pairs')
  obtain n operator where pair: "pair = (n, operator)"
    by (cases pair)
  define tokens where "tokens = pairs_tokens pairs @ tok # rest"
  have shape: "tokens = n # operator # pairs_tokens pairs' @ tok # rest"
    by (simp add: tokens_def Cons pair pairs_tokens_def)
  have "dangling (tl tokens)"
    unfolding tokens_def using assms(1) _ assms(2) by (rule dangling_pairs) (simp add: Cons)
  then have more: "dangling (drop (nat 1) tokens)"
    by (simp add: drop_Suc)
  have "type n = NUM"
    using assms(1) Cons pair by simp
  then have "parse_literal tokens 0 = Inr (Literal n, 1)"
    using parse_literal_NUM [of 0 tokens] by (simp add: shape advance_def is_last_def)
  then have factor: "parse_factor tokens 0 = factor_loop tokens 1 (Literal n)"
    by (simp add: parse_factor_def)
  from factor_loop_dangling [OF _ more, of "Literal n"]
  consider "factor_loop tokens 1 (Literal n) = Inl (ParseError ''Wrong syntax'')"
    | left c' where "factor_loop tokens 1 (Literal n) = Inr (left, c')" "1 \<le> c'"
        "dangling (drop (nat c') tokens)" "type (tokens ! nat c') \<noteq> MUL"
    by fastforce
  then have "parse_term tokens 0 = Inl (ParseError ''Wrong syntax'')"
  proof cases
    case 1
    with factor show ?thesis
      by (simp add: parse_term_def)
  next
    case 2
    from term_loop_dangling [OF _ 2(3,4), of left] 2(1,2) factor show ?thesis
      by (simp add: parse_term_def)
  qed
  then show ?thesis
    by (simp add: parse_def tokens_def)
qed

section \<open>Properties of the evaluator\<close>

text \<open>
  The base ten value of a string of ASCII digits, by position; \<open>py_int\<close> computes it
  on every such string that is not empty.
\<close>

definition ascii_digit :: "pychar \<Rightarrow> bool" where
  "ascii_digit ch = (48 \<le> ch \<and> ch \<le> 57)"

definition decimal_value :: "pystr \<Rightarrow> nat" where
  "decimal_value digits =
     (\<Sum>i < length digits. (digits ! i - 48) * 10 ^ (length digits - Suc i))"

lemma decimal_digit_ascii: "ascii_digit ch \<Longrightarrow> decimal_digit ch = Some (ch - 48)"
  by (simp add: ascii_digit_def decimal_digit_def decimal_starts_def)

lemma decimal_digit_ascii_range: "ch < 127 \<Longrightarrow> decimal_digit ch \<noteq> None \<Longrightarrow> ascii_digit ch"
  by (simp add: ascii_digit_def decimal_digit_def decimal_starts_def split: if_splits)

lemma ascii_digit_not_space: "ascii_digit ch \<Longrightarrow> \<not> int_space ch"
  by (simp add: ascii_digit_def int_space_def)

lemma no_double_underscore:
  "of_char CHR ''_'' \<notin> set body \<Longrightarrow> \<not> double_underscore body"
  by (induction body rule: double_underscore.induct) auto

lemma horner_decimal:
  "foldl (\<lambda>acc ch. 10 * acc + (ch - 48)) start digits
     = start * 10 ^ length digits + decimal_value digits"
proof (induction digits rule: rev_induct)
  case Nil
  then show ?case by (simp add: decimal_value_def)
next
  case (snoc ch digits)
  have "decimal_value (digits @ [ch])
      = (\<Sum>i < length digits. (digits ! i - 48) * 10 ^ (length digits - i)) + (ch - 48)"
    by (simp add: decimal_value_def nth_append)
  also have "(\<Sum>i < length digits. (digits ! i - 48) * 10 ^ (length digits - i))
      = (\<Sum>i < length digits. 10 * ((digits ! i - 48) * 10 ^ (length digits - Suc i)))"
    by (rule sum.cong) (auto simp: Suc_diff_Suc simp flip: power_Suc)
  also have "\<dots> = 10 * decimal_value digits"
    by (simp add: decimal_value_def sum_distrib_left)
  finally show ?case
    using snoc by (simp add: algebra_simps)
qed

lemma digits_value_ascii:
  assumes "\<forall>ch \<in> set digits. ascii_digit ch"
  shows "digits_value digits = decimal_value digits"
proof -
  have "filter (\<lambda>ch. ch \<noteq> of_char CHR ''_'') digits = digits"
    using assms by (auto simp: filter_id_conv ascii_digit_def)
  moreover have "foldl (\<lambda>acc ch. 10 * acc + the (decimal_digit ch)) start digits
      = foldl (\<lambda>acc ch. 10 * acc + (ch - 48)) start digits" for start
    using assms by (induction digits arbitrary: start) (simp_all add: decimal_digit_ascii)
  ultimately show ?thesis
    using horner_decimal [of 0 digits] by (simp add: digits_value_def)
qed

lemma py_int_ascii_digits:
  assumes "digits \<noteq> []" and "\<forall>ch \<in> set digits. ascii_digit ch"
  shows "py_int digits = Inr (int (decimal_value digits))"
proof -
  obtain ch rest where digits: "digits = ch # rest"
    using assms(1) by (cases digits) auto
  with assms(2) have first: "ascii_digit ch"
    by simp
  have body: "\<forall>ch \<in> set digits. int_body_char ch"
    using assms(2) by (simp add: int_body_char_def decimal_digit_ascii)
  have no_underscore: "of_char CHR ''_'' \<notin> set digits"
    using assms(2) by (auto simp: ascii_digit_def)
  have strip: "dropWhile int_space digits = digits"
    using first by (simp add: digits ascii_digit_not_space)
  have sign: "hd digits \<noteq> of_char CHR ''+''" "hd digits \<noteq> of_char CHR ''-''"
    using first by (auto simp: digits ascii_digit_def)
  have split: "takeWhile int_body_char digits = digits" "dropWhile int_body_char digits = []"
    using body by simp_all
  have ends: "hd digits \<noteq> of_char CHR ''_''" "last digits \<noteq> of_char CHR ''_''"
    using no_underscore assms(1) by (metis hd_in_set, metis last_in_set)
  have "\<not> double_underscore digits"
    using no_underscore by (rule no_double_underscore)
  then show ?thesis
    unfolding py_int_def Let_def strip
    by (simp only: sign split ends assms(1) simp_thms if_False dropWhile.simps
        digits_value_ascii [OF assms(2)])
qed

section \<open>Expressions in source form\<close>

text \<open>
  An expression as it is written: a product is a list of digit strings joined by
  \<^verbatim>\<open>*\<close>, a sum of products is a list of products joined by \<^verbatim>\<open>+\<close> and
  \<^verbatim>\<open>-\<close> characters. \<open>sum_value\<close> is its value when every product is taken
  before the additions and subtractions. \<open>layout\<close> writes a token sequence down with
  a (possibly empty) run of whitespace before each token and after the last.
\<close>

definition number_token :: "pystr \<Rightarrow> token" where
  "number_token digits = \<lparr>type = NUM, lexeme = digits\<rparr>"

type_synonym product_source = "pystr \<times> pystr list"
type_synonym sum_source = "product_source \<times> (pychar \<times> product_source) list"

fun product_of_source :: "product_source \<Rightarrow> product" where
  "product_of_source (d, ds) =
     (number_token d, map (\<lambda>d. (operator_token (of_char CHR ''*''), number_token d)) ds)"

fun sum_of_source :: "sum_source \<Rightarrow> sum_of_products" where
  "sum_of_source (p, ops) =
     (product_of_source p, map (\<lambda>(ch, p). (operator_token ch, product_of_source p)) ops)"

fun product_value :: "product_source \<Rightarrow> int" where
  "product_value (d, ds) = prod_list (map (\<lambda>d. int (decimal_value d)) (d # ds))"

fun sum_value :: "sum_source \<Rightarrow> int" where
  "sum_value (p, ops) =
     product_value p
       + sum_list (map (\<lambda>(ch, p). if ch = of_char CHR ''+'' then product_value p
                                   else - product_value p) ops)"

definition literal_ok :: "pystr \<Rightarrow> bool" where
  "literal_ok d = (d \<noteq> [] \<and> list_all ascii_digit d)"

fun product_source_ok :: "product_source \<Rightarrow> bool" where
  "product_source_ok (d, ds) = (literal_ok d \<and> list_all literal_ok ds)"

fun sum_source_ok :: "sum_source \<Rightarrow> bool" where
  "sum_source_ok (p, ops) =
     (product_source_ok p
      \<and> list_all (\<lambda>(ch, p). (ch = of_char CHR ''+'' \<or> ch = of_char CHR ''-'')
                     \<and> product_source_ok p) ops)"

definition first_gap :: "pystr list \<Rightarrow> pystr" where
  "first_gap wss = (case wss of [] \<Rightarrow> [] | ws # _ \<Rightarrow> ws)"

fun layout :: "pystr list \<Rightarrow> token list \<Rightarrow> pystr" where
  "layout wss [] = first_gap wss"
| "layout wss (tok # toks) = first_gap wss @ lexeme tok @ layout (tl wss) toks"

lemma product_of_source_ok: "product_source_ok p \<Longrightarrow> product_ok (product_of_source p)"
  by (cases p)
    (auto simp: product_tail_ok_def number_token_def operator_token_def list_all_iff)

lemma sum_of_source_ok: "sum_source_ok e \<Longrightarrow> sum_ok (sum_of_source e)"
  by (cases e)
    (auto simp: sum_tail_ok_def product_tail_ok_def number_token_def operator_token_def
      list_all_iff)

lemma evaluate_literal:
  "literal_ok d \<Longrightarrow> Evaluator_visit_Literal (number_token d) = Inr (int (decimal_value d))"
  by (simp add: Evaluator_visit_Literal_def number_token_def literal_ok_def
      py_int_ascii_digits list_all_iff)

lemma evaluate_product_chain:
  assumes "Evaluator_accept acc = Inr v" and "list_all literal_ok ds"
  shows "Evaluator_accept
           (foldl (\<lambda>left (m, n). BinOp left (type m) (Literal n)) acc
              (map (\<lambda>d. (operator_token (of_char CHR ''*''), number_token d)) ds))
         = Inr (v * prod_list (map (\<lambda>d. int (decimal_value d)) ds))"
  using assms
proof (induction ds arbitrary: acc v)
  case Nil
  then show ?case by simp
next
  case (Cons d ds)
  then have "Evaluator_accept
      (BinOp acc (type (operator_token (of_char CHR ''*''))) (Literal (number_token d)))
        = Inr (v * int (decimal_value d))"
    by (simp add: evaluate_literal operator_token_def)
  from Cons.IH [OF this] Cons.prems(2) show ?case
    by (simp add: mult.assoc)
qed

lemma evaluate_product:
  "product_source_ok p \<Longrightarrow>
   Evaluator_accept (product_tree (product_of_source p)) = Inr (product_value p)"
proof -
  assume ok: "product_source_ok p"
  obtain d ds where p: "p = (d, ds)"
    by (cases p)
  with ok have "Evaluator_accept (Literal (number_token d)) = Inr (int (decimal_value d))"
    by (simp add: evaluate_literal)
  from evaluate_product_chain [OF this, of ds] ok show ?thesis
    by (simp add: p)
qed

lemma evaluate_sum_chain:
  assumes "Evaluator_accept acc = Inr v"
    and "list_all (\<lambda>(ch, p). (ch = of_char CHR ''+'' \<or> ch = of_char CHR ''-'')
                     \<and> product_source_ok p) ops"
  shows "Evaluator_accept
           (foldl (\<lambda>left (operator, p). BinOp left (type operator) (product_tree p)) acc
              (map (\<lambda>(ch, p). (operator_token ch, product_of_source p)) ops))
         = Inr (v + sum_list (map (\<lambda>(ch, p). if ch = of_char CHR ''+'' then product_value p
                                              else - product_value p) ops))"
  using assms
proof (induction ops arbitrary: acc v)
  case Nil
  then show ?case by simp
next
  case (Cons op_p ops)
  obtain ch p where op_p: "op_p = (ch, p)"
    by (cases op_p)
  with Cons.prems have "Evaluator_accept
      (BinOp acc (type (operator_token ch)) (product_tree (product_of_source p)))
        = Inr (v + (if ch = of_char CHR ''+'' then product_value p else - product_value p))"
    by (auto simp: evaluate_product operator_token_def)
  from Cons.IH [OF this] Cons.prems(2) show ?case
    by (simp add: op_p add.assoc)
qed

lemma evaluate_sum:
  "sum_source_ok e \<Longrightarrow> evaluate (sum_tree (sum_of_source e)) = Inr (sum_value e)"
proof -
  assume ok: "sum_source_ok e"
  obtain p ops where e: "e = (p, ops)"
    by (cases e)
  with ok have "Evaluator_accept (product_tree (product_of_source p)) = Inr (product_value p)"
    by (simp add: evaluate_product)
  from evaluate_sum_chain [OF this, of ops] ok show ?thesis
    by (simp add: e evaluate_def)
qed

definition scanner_token :: "token \<Rightarrow> bool" where
  "scanner_token tok =
     (if type tok = NUM then lexeme tok \<noteq> [] \<and> list_all isnumeric (lexeme tok)
      else length (lexeme tok) = 1 \<and> is_operator (hd (lexeme tok))
           \<and> tok = operator_token (hd (lexeme tok)))"

fun no_adjacent_NUM :: "token list \<Rightarrow> bool" where
  "no_adjacent_NUM (a # b # toks) =
     (\<not> (type a = NUM \<and> type b = NUM) \<and> no_adjacent_NUM (b # toks))"
| "no_adjacent_NUM toks = True"

lemma scan_skip_spaces: "list_all isspace ws \<Longrightarrow> scan (ws @ source) = scan source"
  by (induction ws) (simp_all add: scan_space_Cons space_not_numeric space_not_operator)

lemma first_gap_spaces: "list_all (list_all isspace) wss \<Longrightarrow> list_all isspace (first_gap wss)"
  by (cases wss) (simp_all add: first_gap_def)

lemma tl_spaces: "list_all (list_all isspace) wss \<Longrightarrow> list_all (list_all isspace) (tl wss)"
  by (cases wss) simp_all

lemma layout_not_numeric:
  assumes "list_all (list_all isspace) wss" and "list_all scanner_token toks"
    and "toks = [] \<or> type (hd toks) \<noteq> NUM"
  shows "layout wss toks = [] \<or> \<not> isnumeric (hd (layout wss toks))"
proof -
  have ws: "list_all isspace (first_gap wss)"
    using assms(1) by (rule first_gap_spaces)
  show ?thesis
  proof (cases toks)
    case Nil
    with ws show ?thesis
      using space_not_numeric by (cases "first_gap wss") auto
  next
    case (Cons tok toks')
    with assms(2,3) obtain ch where "lexeme tok = [ch]" and "is_operator ch"
      by (cases "lexeme tok") (auto simp: scanner_token_def)
    with Cons ws show ?thesis
      using space_not_numeric numeric_not_operator
      by (cases "first_gap wss") auto
  qed
qed

lemma scan_layout:
  assumes "list_all (list_all isspace) wss" and "list_all scanner_token toks"
    and "no_adjacent_NUM toks"
  shows "scan (layout wss toks) = Inr toks"
  using assms
proof (induction toks arbitrary: wss)
  case Nil
  from scan_skip_spaces [OF first_gap_spaces [OF Nil(1)], of "[]"] show ?case
    by (simp add: scan_Nil)
next
  case (Cons tok toks)
  define after where "after = layout (tl wss) toks"
  have ws: "list_all isspace (first_gap wss)"
    using Cons.prems(1) by (rule first_gap_spaces)
  have rest_spaces: "list_all (list_all isspace) (tl wss)"
    using Cons.prems(1) by (rule tl_spaces)
  have rest_adjacent: "no_adjacent_NUM toks"
    using Cons.prems(3) by (cases toks) simp_all
  have after: "scan after = Inr toks"
    unfolding after_def using rest_spaces Cons.prems(2) rest_adjacent
    by (intro Cons.IH) simp_all
  have "scan (layout wss (tok # toks)) = scan (lexeme tok @ after)"
    using scan_skip_spaces [OF ws] by (simp add: after_def)
  also have "\<dots> = Inr (tok # toks)"
  proof (cases "type tok = NUM")
    case True
    with Cons.prems(2) have digits: "lexeme tok \<noteq> []" "\<forall>ch \<in> set (lexeme tok). isnumeric ch"
      by (simp_all add: scanner_token_def list_all_iff)
    have "toks = [] \<or> type (hd toks) \<noteq> NUM"
      using Cons.prems(3) True by (cases toks) simp_all
    with rest_spaces Cons.prems(2) have "after = [] \<or> \<not> isnumeric (hd after)"
      unfolding after_def by (intro layout_not_numeric) simp_all
    from scan_number_run [OF digits this] after True show ?thesis
      by (cases tok) simp
  next
    case False
    with Cons.prems(2) obtain ch where "lexeme tok = [ch]" and "is_operator ch"
      and "tok = operator_token ch"
      by (cases "lexeme tok") (auto simp: scanner_token_def)
    with after show ?thesis
      by (simp add: scan_operator_Cons)
  qed
  finally show ?case .
qed

lemma no_adjacent_product:
  assumes "product_tail_ok mns" and "rest = [] \<or> type (hd rest) \<noteq> NUM"
    and "no_adjacent_NUM rest"
  shows "no_adjacent_NUM (n # product_tail_tokens mns @ rest)"
  using assms
proof (induction mns arbitrary: n)
  case Nil
  then show ?case
    by (cases rest) (simp_all add: product_tail_tokens_def)
next
  case (Cons mn mns)
  then show ?case
    by (cases mn) (simp add: product_tail_tokens_def product_tail_ok_def)
qed

lemma no_adjacent_sum_tail:
  assumes "sum_tail_ok ops"
  shows "no_adjacent_NUM (sum_tail_tokens ops)
         \<and> (sum_tail_tokens ops = [] \<or> type (hd (sum_tail_tokens ops)) \<noteq> NUM)"
  using assms
proof (induction ops)
  case Nil
  then show ?case by (simp add: sum_tail_tokens_def)
next
  case (Cons op_p ops)
  obtain operator n mns where op_p: "op_p = (operator, n, mns)"
    by (cases op_p) auto
  with Cons.prems have ok: "type operator = PLUS \<or> type operator = MINUS"
    "product_tail_ok mns" "sum_tail_ok ops"
    by (simp_all add: sum_tail_ok_def)
  from Cons.IH [OF ok(3)]
  have "no_adjacent_NUM (n # product_tail_tokens mns @ sum_tail_tokens ops)"
    using ok(2) by (intro no_adjacent_product) simp_all
  with ok(1) show ?case
    by (auto simp: op_p sum_tail_tokens_def)
qed

lemma no_adjacent_sum: "sum_ok e \<Longrightarrow> no_adjacent_NUM (sum_tokens e)"
proof -
  assume ok: "sum_ok e"
  obtain n mns ops where e: "e = ((n, mns), ops)"
    by (cases e) auto
  with ok no_adjacent_sum_tail [of ops] show ?thesis
    by (simp add: no_adjacent_product)
qed

lemma scanner_token_number: "literal_ok d \<Longrightarrow> scanner_token (number_token d)"
  by (auto simp: scanner_token_def number_token_def literal_ok_def list_all_iff
      ascii_digit_def ascii_digit_numeric)

lemma scanner_token_operator: "is_operator ch \<Longrightarrow> scanner_token (operator_token ch)"
  by (auto simp: scanner_token_def operator_token_def is_operator_def)

lemma scanner_tokens_product:
  "product_source_ok p \<Longrightarrow> list_all scanner_token (product_tokens (product_of_source p))"
proof -
  assume ok: "product_source_ok p"
  obtain d ds where p: "p = (d, ds)"
    by (cases p)
  have "list_all literal_ok ds \<Longrightarrow>
    list_all scanner_token
      (product_tail_tokens
        (map (\<lambda>d. (operator_token (of_char CHR ''*''), number_token d)) ds))"
    by (induction ds)
      (simp_all add: product_tail_tokens_def scanner_token_number
        scanner_token_operator is_operator_def)
  with ok show ?thesis
    by (simp add: p scanner_token_number)
qed

lemma scanner_tokens_sum:
  "sum_source_ok e \<Longrightarrow> list_all scanner_token (sum_tokens (sum_of_source e))"
proof -
  assume ok: "sum_source_ok e"
  obtain p ops where e: "e = (p, ops)"
    by (cases e)
  have "list_all (\<lambda>(ch, p). (ch = of_char CHR ''+'' \<or> ch = of_char CHR ''-'')
                     \<and> product_source_ok p) ops \<Longrightarrow>
    list_all scanner_token
      (sum_tail_tokens (map (\<lambda>(ch, p). (operator_token ch, product_of_source p)) ops))"
  proof (induction ops)
    case Nil
    then show ?case by (simp add: sum_tail_tokens_def)
  next
    case (Cons op_p ops)
    obtain ch q where op_p: "op_p = (ch, q)"
      by (cases op_p)
    with Cons.prems have "is_operator ch" and "product_source_ok q"
      by (auto simp: is_operator_def)
    with Cons show ?case
      using scanner_tokens_product [of q]
      by (simp add: op_p sum_tail_tokens_def scanner_token_operator del: product_tokens.simps)
  qed
  with ok scanner_tokens_product [of p] show ?thesis
    by (simp add: e del: product_tokens.simps)
qed

lemma eval_sum_layout:
  assumes "sum_source_ok e" and "list_all (list_all isspace) wss"
  shows "eval (layout wss (sum_tokens (sum_of_source e))) = Inr (sum_value e)"
proof -
  have ok: "sum_ok (sum_of_source e)"
    using assms(1) by (rule sum_of_source_ok)
  have "scan (layout wss (sum_tokens (sum_of_source e))) = Inr (sum_tokens (sum_of_source e))"
    using assms(2) scanner_tokens_sum [OF assms(1)] no_adjacent_sum [OF ok]
    by (rule scan_layout)
  moreover have "parse (sum_tokens (sum_of_source e)) = Inr (sum_tree (sum_of_source e))"
    using parse_sum_tokens [OF ok, of "[]"] by simp
  ultimately show ?thesis
    using evaluate_sum [OF assms(1)] by (simp add: eval_def)
qed

lemmas scan_eval =
  scan_def str_def scan_loop.simps scan_number_loop.simps scan_number_def slice_def Let_def
  scan_operator_def isnumeric_def isspace_def in_ranges_def numeric_ranges_def space_ranges_def

text \<open>
  Claim C9. Whenever \<open>scan\<close> succeeds on a source string, the lexemes of the tokens
  it returns, concatenated in order, are the source string without its whitespace
  characters (the characters for which \<^verbatim>\<open>str.isspace\<close> holds).
\<close>

theorem scan_keeps_non_whitespace:
  assumes "scan source = Inr tokens"
  shows "concat (map lexeme tokens) = filter (\<lambda>ch. \<not> isspace ch) source"
  using assms by (rule scan_lexemes)

theorem scan_keeps_non_whitespace_witness:
  "scan (str '' 12 +  3'')
     = Inr [\<lparr>type = NUM, lexeme = str ''12''\<rparr>, \<lparr>type = PLUS, lexeme = str ''+''\<rparr>,
            \<lparr>type = NUM, lexeme = str ''3''\<rparr>]
   \<and> concat (map lexeme [\<lparr>type = NUM, lexeme = str ''12''\<rparr>, \<lparr>type = PLUS, lexeme = str ''+''\<rparr>,
            \<lparr>type = NUM, lexeme = str ''3''\<rparr>])
     = filter (\<lambda>ch. \<not> isspace ch) (str '' 12 +  3'')"
proof -
  have run: "scan (str '' 12 +  3'')
     = Inr [\<lparr>type = NUM, lexeme = str ''12''\<rparr>, \<lparr>type = PLUS, lexeme = str ''+''\<rparr>,
            \<lparr>type = NUM, lexeme = str ''3''\<rparr>]"
    by (simp add: scan_eval)
  from scan_keeps_non_whitespace [OF run] run show ?thesis
    by simp
qed

end
